theory Spec2Isabelle
  imports Main
begin

section \<open>Values, placeholders and callables\<close>

text \<open>
  The module \<^verbatim>\<open>autopartial.py\<close> is higher-order Python: \<^verbatim>\<open>autopartial(f)\<close> returns the
  closure \<^verbatim>\<open>wrapped\<close>, and \<^verbatim>\<open>wrapped\<close> may return a further closure \<^verbatim>\<open>new_f\<close>.
  The closures are represented by what they capture (their free variables), and one
  function \<open>call\<close> gives the body of each.

  \<^verbatim>\<open>class _Arg\<close> has the single field \<^verbatim>\<open>index\<close>. The constants \<^verbatim>\<open>_0_\<close> .. \<^verbatim>\<open>_9_\<close>
  hold the integers 0..9 and \<^verbatim>\<open>_kw_(s)\<close> holds the string \<open>s\<close>. (Isabelle names
  cannot begin with an underscore, so \<^verbatim>\<open>_Arg\<close> is written \<open>Arg\<close>.)
\<close>

datatype index = Idx int | Kw string

datatype error = KeyError index | TypeError | Raised string

text \<open>
  \<open>'p\<close> names the user's functions (the targets handed to \<^verbatim>\<open>autopartial\<close>); their
  bodies are given by an interpretation, see \<open>call\<close>.

  A callable is a user function, the closure \<^verbatim>\<open>wrapped\<close> (capturing \<^verbatim>\<open>f\<close>), or the
  undecorated closure \<^verbatim>\<open>new_f\<close> (capturing \<^verbatim>\<open>f\<close>, \<^verbatim>\<open>orig_args\<close> and
  \<^verbatim>\<open>orig_kwargs\<close>). A keyword dictionary is an association list in the dictionary's
  iteration order; its keys are strings and distinct.
\<close>

datatype 'p val =
    VNone
  | VInt int
  | VStr string
  | VTuple "'p val list"
  | VList "'p val list"
  | VDict "(string \<times> 'p val) list"
  | Arg index
  | VFun "'p callable"
and 'p callable =
    Prim 'p
  | Wrapped "'p callable"
  | NewF "'p callable" "'p val list" "(string \<times> 'p val) list"

type_synonym 'p kwargs = "(string \<times> 'p val) list"

type_synonym ('p, 's) interp =
  "'p \<Rightarrow> 'p val list \<Rightarrow> 'p kwargs \<Rightarrow> 's \<Rightarrow> (error + 'p val) \<times> 's"

text \<open>\<^verbatim>\<open>isinstance(arg, _Arg)\<close>\<close>

fun is_Arg :: "'p val \<Rightarrow> bool" where
  "is_Arg (Arg i) = True"
| "is_Arg v = False"

text \<open>
  The test of \<^verbatim>\<open>wrapped\<close>:
  \<^verbatim>\<open>any([isinstance(arg, _Arg) for arg in orig_args])
     or any([isinstance(kwarg, _Arg) for kwarg in orig_kwargs.values()])\<close>
\<close>

definition has_placeholder :: "'p val list \<Rightarrow> 'p kwargs \<Rightarrow> bool" where
  "has_placeholder orig_args orig_kwargs \<longleftrightarrow>
     list_ex is_Arg orig_args \<or> list_ex is_Arg (map snd orig_kwargs)"

section \<open>The body of \<^verbatim>\<open>new_f\<close>\<close>

text \<open>
  \<^verbatim>\<open>all_args = kwargs.copy(); all_args.update(enumerate(args))\<close>:
  a dictionary with the keyword entries under their strings and, written over them,
  the positional arguments under 0, 1, ...
\<close>

definition all_args_of :: "'p val list \<Rightarrow> 'p kwargs \<Rightarrow> (index \<rightharpoonup> 'p val)" where
  "all_args_of args kwargs =
     map_of (map (\<lambda>(k, v). (Kw k, v)) kwargs)
       ++ map_of (map (\<lambda>(i, v). (Idx (int i), v)) (enumerate 0 args))"

text \<open>\<^verbatim>\<open>_Arg.get_value\<close>: \<^verbatim>\<open>args[self.index]\<close> on a dictionary raises KeyError for a missing key.\<close>

definition get_value :: "index \<Rightarrow> (index \<rightharpoonup> 'p val) \<Rightarrow> error + 'p val" where
  "get_value index args = (case args index of None \<Rightarrow> Inl (KeyError index) | Some v \<Rightarrow> Inr v)"

text \<open>\<^verbatim>\<open>orig_arg.get_value(all_args) if isinstance(orig_arg, _Arg) else orig_arg\<close>\<close>

fun resolve :: "(index \<rightharpoonup> 'p val) \<Rightarrow> 'p val \<Rightarrow> error + 'p val" where
  "resolve all_args (Arg i) = get_value i all_args"
| "resolve all_args orig_arg = Inr orig_arg"

text \<open>The list comprehension \<^verbatim>\<open>new_args\<close>: left to right, the first KeyError ends it.\<close>

fun new_args_of :: "(index \<rightharpoonup> 'p val) \<Rightarrow> 'p val list \<Rightarrow> error + 'p val list" where
  "new_args_of all_args [] = Inr []"
| "new_args_of all_args (orig_arg # rest) =
     (case resolve all_args orig_arg of
        Inl e \<Rightarrow> Inl e
      | Inr v \<Rightarrow> (case new_args_of all_args rest of
                    Inl e \<Rightarrow> Inl e
                  | Inr vs \<Rightarrow> Inr (v # vs)))"

text \<open>The dictionary comprehension \<^verbatim>\<open>new_kwargs\<close> over \<^verbatim>\<open>orig_kwargs.items()\<close>.\<close>

fun new_kwargs_of :: "(index \<rightharpoonup> 'p val) \<Rightarrow> 'p kwargs \<Rightarrow> error + 'p kwargs" where
  "new_kwargs_of all_args [] = Inr []"
| "new_kwargs_of all_args ((keyword, orig_value) # rest) =
     (case resolve all_args orig_value of
        Inl e \<Rightarrow> Inl e
      | Inr v \<Rightarrow> (case new_kwargs_of all_args rest of
                    Inl e \<Rightarrow> Inl e
                  | Inr kvs \<Rightarrow> Inr ((keyword, v) # kvs)))"

section \<open>\<^verbatim>\<open>autopartial\<close> and calling\<close>

text \<open>\<^verbatim>\<open>autopartial(f)\<close> returns the closure \<^verbatim>\<open>wrapped\<close> over \<^verbatim>\<open>f\<close>.\<close>

definition autopartial :: "'p callable \<Rightarrow> 'p callable" where
  "autopartial f = Wrapped f"

text \<open>
  \<open>call I c args kwargs s\<close> is the call \<^verbatim>\<open>c(*args, **kwargs)\<close> in state \<open>s\<close>; it gives
  the returned value or the raised error, and the state afterwards. User functions may
  have effects (the test target prints), so their interpretation \<open>I\<close> threads a state.
\<close>

fun call :: "('p, 's) interp \<Rightarrow> 'p callable \<Rightarrow> 'p val list \<Rightarrow> 'p kwargs \<Rightarrow> 's
    \<Rightarrow> (error + 'p val) \<times> 's" where
  "call I (Prim p) args kwargs s = I p args kwargs s"
| "call I (Wrapped f) orig_args orig_kwargs s =
     (if has_placeholder orig_args orig_kwargs
      then (Inr (VFun (autopartial (NewF f orig_args orig_kwargs))), s)
      else call I f orig_args orig_kwargs s)"
| "call I (NewF f orig_args orig_kwargs) args kwargs s =
     (let all_args = all_args_of args kwargs in
      case new_args_of all_args orig_args of
        Inl e \<Rightarrow> (Inl e, s)
      | Inr new_args \<Rightarrow>
          (case new_kwargs_of all_args orig_kwargs of
             Inl e \<Rightarrow> (Inl e, s)
           | Inr new_kwargs \<Rightarrow> call I f new_args new_kwargs s))"

section \<open>The body of \<^verbatim>\<open>new_f\<close> on a store\<close>

text \<open>
  A second, finer embedding of lines 47 to 58, in which the tuples, lists and
  dictionaries that \<^verbatim>\<open>new_f\<close> handles are objects in a store, so that what the body
  writes is visible. An address is a position in the store and a new object is put at
  its end. The variables \<^verbatim>\<open>orig_args\<close>, \<^verbatim>\<open>orig_kwargs\<close> (cells of the closure) and
  \<^verbatim>\<open>args\<close>, \<^verbatim>\<open>kwargs\<close> (parameters) hold addresses. A dictionary object is an association
  list whose keys are indices, since \<^verbatim>\<open>all_args\<close> has both strings and integers as keys.
\<close>

datatype 'p obj = Tuple "'p val list" | PyList "'p val list" | Dict "(index \<times> 'p val) list"

type_synonym 'p heap = "'p obj list"

definition load :: "'p heap \<Rightarrow> nat \<Rightarrow> 'p obj option" where
  "load h a = (if a < length h then Some (h ! a) else None)"

definition alloc :: "'p heap \<Rightarrow> 'p obj \<Rightarrow> 'p heap \<times> nat" where
  "alloc h ob = (h @ [ob], length h)"

text \<open>\<^verbatim>\<open>d[k] = v\<close> and \<^verbatim>\<open>d.update(items)\<close> on the association list of a dictionary.\<close>

fun setitem :: "(index \<times> 'p val) list \<Rightarrow> index \<Rightarrow> 'p val \<Rightarrow> (index \<times> 'p val) list" where
  "setitem [] k v = [(k, v)]"
| "setitem ((k', v') # d) k v = (if k' = k then (k, v) # d else (k', v') # setitem d k v)"

fun dict_update :: "(index \<times> 'p val) list \<Rightarrow> (index \<times> 'p val) list \<Rightarrow> (index \<times> 'p val) list" where
  "dict_update d [] = d"
| "dict_update d ((k, v) # items) = dict_update (setitem d k v) items"

text \<open>The items of a keyword dictionary, and \<^verbatim>\<open>enumerate(args)\<close>, as items of a dictionary object.\<close>

definition kw_items :: "'p kwargs \<Rightarrow> (index \<times> 'p val) list" where
  "kw_items kwargs = map (\<lambda>(k, v). (Kw k, v)) kwargs"

definition enum_items :: "'p val list \<Rightarrow> (index \<times> 'p val) list" where
  "enum_items args = map (\<lambda>(i, v). (Idx (int i), v)) (enumerate 0 args)"

text \<open>The dictionary comprehension of line 54 on the items of a dictionary object.\<close>

fun new_items_of :: "(index \<rightharpoonup> 'p val) \<Rightarrow> (index \<times> 'p val) list \<Rightarrow> error + (index \<times> 'p val) list" where
  "new_items_of all_args [] = Inr []"
| "new_items_of all_args ((keyword, orig_value) # rest) =
     (case resolve all_args orig_value of
        Inl e \<Rightarrow> Inl e
      | Inr v \<Rightarrow> (case new_items_of all_args rest of
                    Inl e \<Rightarrow> Inl e
                  | Inr kvs \<Rightarrow> Inr ((keyword, v) # kvs)))"

text \<open>
  Lines 48 to 57: \<^verbatim>\<open>kwargs.copy()\<close> allocates, \<^verbatim>\<open>all_args.update(...)\<close> writes into the
  copy, each comprehension allocates its result. The result is the addresses of
  \<^verbatim>\<open>new_args\<close> and \<^verbatim>\<open>new_kwargs\<close>, or the error raised, and the store afterwards.
  (An object of the wrong kind at an address cannot arise from a call; the model
  answers TypeError.)
\<close>

definition new_f_body :: "'p heap \<Rightarrow> nat \<Rightarrow> nat \<Rightarrow> nat \<Rightarrow> nat \<Rightarrow> (error + nat \<times> nat) \<times> 'p heap" where
  "new_f_body h orig_args orig_kwargs args kwargs =
     (case load h kwargs of
        Some (Dict kws) \<Rightarrow>
          (let (h1, all_args) = alloc h (Dict kws) in
           case (load h1 args, load h1 all_args) of
             (Some (Tuple xs), Some (Dict d)) \<Rightarrow>
               (let h2 = h1[all_args := Dict (dict_update d (enum_items xs))] in
                case (load h2 orig_args, load h2 all_args) of
                  (Some (Tuple oa), Some (Dict b)) \<Rightarrow>
                    (case new_args_of (map_of b) oa of
                       Inl e \<Rightarrow> (Inl e, h2)
                     | Inr vs \<Rightarrow>
                         (let (h3, new_args) = alloc h2 (PyList vs) in
                          case (load h3 orig_kwargs, load h3 all_args) of
                            (Some (Dict ok), Some (Dict b')) \<Rightarrow>
                              (case new_items_of (map_of b') ok of
                                 Inl e \<Rightarrow> (Inl e, h3)
                               | Inr kvs \<Rightarrow>
                                   (let (h4, new_kwargs) = alloc h3 (Dict kvs) in
                                    (Inr (new_args, new_kwargs), h4)))
                          | _ \<Rightarrow> (Inl TypeError, h3)))
                | _ \<Rightarrow> (Inl TypeError, h2))
           | _ \<Rightarrow> (Inl TypeError, h1))
      | _ \<Rightarrow> (Inl TypeError, h))"

text \<open>
  Line 58, \<^verbatim>\<open>return f(*new_args, **new_kwargs)\<close>: the call unpacks the list into the
  positional arguments and the dictionary into the keyword arguments (whose keys must be
  strings) of the callee, which therefore gets no address of the caller's objects.
\<close>

fun positional_args :: "'p obj \<Rightarrow> 'p val list option" where
  "positional_args (Tuple vs) = Some vs"
| "positional_args (PyList vs) = Some vs"
| "positional_args (Dict d) = None"

fun keyword_item :: "index \<times> 'p val \<Rightarrow> (string \<times> 'p val) option" where
  "keyword_item (Kw k, v) = Some (k, v)"
| "keyword_item (Idx i, v) = None"

fun keyword_args :: "'p obj \<Rightarrow> 'p kwargs option" where
  "keyword_args (Dict d) = those (map keyword_item d)"
| "keyword_args ob = None"

definition new_f_heap :: "('p, 's) interp \<Rightarrow> 'p callable \<Rightarrow> 'p heap \<Rightarrow> nat \<Rightarrow> nat \<Rightarrow> nat \<Rightarrow> nat \<Rightarrow> 's
    \<Rightarrow> ((error + 'p val) \<times> 's) \<times> 'p heap" where
  "new_f_heap I f h orig_args orig_kwargs args kwargs s =
     (case new_f_body h orig_args orig_kwargs args kwargs of
        (Inl e, h') \<Rightarrow> ((Inl e, s), h')
      | (Inr (new_args, new_kwargs), h') \<Rightarrow>
          (case (Option.bind (load h' new_args) positional_args, Option.bind (load h' new_kwargs) keyword_args) of
             (Some vs, Some kvs) \<Rightarrow> (call I f vs kvs s, h')
           | _ \<Rightarrow> ((Inl TypeError, s), h')))"

section \<open>The functions of the module's examples and tests\<close>

text \<open>
  The docstring's \<^verbatim>\<open>def power(a, b): return a**b\<close> and the test class's
  \<^verbatim>\<open>def f(*args, **kwargs): print args, kwargs; return args, kwargs\<close>.
  The state of the examples is what has been printed.
\<close>

datatype example = Power | Test_f

type_synonym printed = "(example val list \<times> example kwargs) list"

text \<open>
  \<^verbatim>\<open>a**b\<close> on integers. A negative exponent gives a float, which is not among the values
  modelled here; that case is marked by \<open>Raised\<close> and no statement below depends on it.
\<close>

fun py_pow :: "'p val \<Rightarrow> 'p val \<Rightarrow> error + 'p val" where
  "py_pow (VInt a) (VInt b) = (if 0 \<le> b then Inr (VInt (a ^ nat b)) else Inl (Raised ''float''))"
| "py_pow a b = Inl TypeError"

text \<open>Binding the n-th parameter, called \<open>name\<close>, of a \<^verbatim>\<open>def\<close> from a call's arguments.\<close>

definition param :: "nat \<Rightarrow> string \<Rightarrow> 'p val list \<Rightarrow> 'p kwargs \<Rightarrow> error + 'p val" where
  "param n name args kwargs =
     (if n < length args
      then (if name \<in> fst ` set kwargs then Inl TypeError else Inr (args ! n))
      else case map_of kwargs name of None \<Rightarrow> Inl TypeError | Some v \<Rightarrow> Inr v)"

definition power_f :: "'p val list \<Rightarrow> 'p kwargs \<Rightarrow> error + 'p val" where
  "power_f args kwargs =
     (if 2 < length args \<or> \<not> fst ` set kwargs \<subseteq> {''a'', ''b''} then Inl TypeError
      else case param 0 ''a'' args kwargs of
             Inl e \<Rightarrow> Inl e
           | Inr a \<Rightarrow> (case param 1 ''b'' args kwargs of
                         Inl e \<Rightarrow> Inl e
                       | Inr b \<Rightarrow> py_pow a b))"

fun examples :: "(example, printed) interp" where
  "examples Power args kwargs s = (power_f args kwargs, s)"
| "examples Test_f args kwargs s = (Inr (VTuple [VTuple args, VDict kwargs]), s @ [(args, kwargs)])"

section \<open>Auxiliary notions used to state the properties\<close>

text \<open>
  A captured argument is bound by a dictionary when it is no placeholder or its index is a
  key; \<open>resolved\<close> is the value it then stands for.
\<close>

fun bound :: "(index \<rightharpoonup> 'p val) \<Rightarrow> 'p val \<Rightarrow> bool" where
  "bound b (Arg i) = (b i \<noteq> None)"
| "bound b v = True"

fun resolved :: "(index \<rightharpoonup> 'p val) \<Rightarrow> 'p val \<Rightarrow> 'p val" where
  "resolved b (Arg i) = the (b i)"
| "resolved b v = v"

text \<open>
  Counting the calls of the user functions: the interpretation \<open>counted I\<close> behaves as
  \<open>I\<close> and increments a counter at every call of a user function.
\<close>

definition counted :: "('p, 's) interp \<Rightarrow> ('p, 's \<times> nat) interp" where
  "counted I p args kwargs = (\<lambda>(s, n). case I p args kwargs s of (r, s') \<Rightarrow> (r, (s', Suc n)))"

text \<open>A placeholder somewhere inside a value, at any depth.\<close>

fun contains_Arg :: "'p val \<Rightarrow> bool" where
  "contains_Arg (Arg i) = True"
| "contains_Arg (VTuple vs) = list_ex contains_Arg vs"
| "contains_Arg (VList vs) = list_ex contains_Arg vs"
| "contains_Arg (VDict kvs) = list_ex (\<lambda>kv. contains_Arg (snd kv)) kvs"
| "contains_Arg v = False"

text \<open>The user function at the bottom of a callable.\<close>

fun target_of :: "'p callable \<Rightarrow> 'p" where
  "target_of (Prim p) = p"
| "target_of (Wrapped f) = target_of f"
| "target_of (NewF f orig_args orig_kwargs) = target_of f"

section \<open>Facts about the binding dictionary and the comprehensions\<close>

lemma has_placeholder_iff:
  "has_placeholder args kwargs \<longleftrightarrow> (\<exists>v \<in> set args \<union> snd ` set kwargs. is_Arg v)"
  by (auto simp: has_placeholder_def list_ex_iff)

lemma map_of_kw_Idx: "map_of (map (\<lambda>(k, v). (Kw k, v)) kwargs) (Idx i) = None"
  by (induction kwargs) auto

lemma map_of_kw_Kw: "map_of (map (\<lambda>(k, v). (Kw k, v)) kwargs) (Kw k) = map_of kwargs k"
  by (induction kwargs) auto

lemma map_of_enum_Kw: "map_of (map (\<lambda>(i, v). (Idx (int i), v)) (enumerate n args)) (Kw k) = None"
  by (induction args arbitrary: n) auto

lemma map_of_enum_Idx:
  "map_of (map (\<lambda>(i, v). (Idx (int i), v)) (enumerate n args)) (Idx i) =
     (if int n \<le> i \<and> i < int n + int (length args) then Some (args ! (nat i - n)) else None)"
proof (induction args arbitrary: n)
  case Nil
  then show ?case by simp
next
  case (Cons a args)
  show ?case
  proof (cases "i = int n")
    case True
    then show ?thesis by simp
  next
    case False
    have "nat i - n = Suc (nat i - Suc n)" if "int n < i"
      using that by linarith
    then show ?thesis using False Cons.IH [of "Suc n"] by auto
  qed
qed

lemma all_args_of_Idx:
  "all_args_of args kwargs (Idx i) =
     (if 0 \<le> i \<and> i < int (length args) then Some (args ! nat i) else None)"
  by (simp add: all_args_of_def map_add_def map_of_enum_Idx map_of_kw_Idx)

lemma all_args_of_Kw: "all_args_of args kwargs (Kw k) = map_of kwargs k"
  by (simp add: all_args_of_def map_add_def map_of_enum_Kw map_of_kw_Kw)

lemma resolve_bound: "bound b v \<Longrightarrow> resolve b v = Inr (resolved b v)"
  by (cases v) (auto simp: get_value_def)

lemma resolve_not_bound: "\<not> bound b v \<Longrightarrow> \<exists>i. v = Arg i \<and> b i = None \<and> resolve b v = Inl (KeyError i)"
  by (cases v) (auto simp: get_value_def)

lemma resolve_no_Arg: "\<not> is_Arg v \<Longrightarrow> resolve b v = Inr v"
  by (cases v) auto

lemma new_args_of_bound:
  "list_all (bound b) vs \<Longrightarrow> new_args_of b vs = Inr (map (resolved b) vs)"
  by (induction vs) (auto simp: resolve_bound)

lemma new_kwargs_of_bound:
  "list_all (bound b) (map snd kvs) \<Longrightarrow>
     new_kwargs_of b kvs = Inr (map (\<lambda>(k, v). (k, resolved b v)) kvs)"
  by (induction kvs) (auto simp: resolve_bound)

lemma new_args_of_unbound:
  "\<not> list_all (bound b) vs \<Longrightarrow>
     \<exists>i. Arg i \<in> set vs \<and> b i = None \<and> new_args_of b vs = Inl (KeyError i)"
proof (induction vs)
  case Nil
  then show ?case by simp
next
  case (Cons v vs)
  show ?case
  proof (cases "bound b v")
    case False
    from resolve_not_bound [OF this] show ?thesis by auto
  next
    case True
    with Cons.prems have "\<not> list_all (bound b) vs" by simp
    from Cons.IH [OF this] resolve_bound [OF True] show ?thesis by auto
  qed
qed

lemma new_kwargs_of_unbound:
  "\<not> list_all (bound b) (map snd kvs) \<Longrightarrow>
     \<exists>i. Arg i \<in> snd ` set kvs \<and> b i = None \<and> new_kwargs_of b kvs = Inl (KeyError i)"
proof (induction kvs)
  case Nil
  then show ?case by simp
next
  case (Cons kv kvs)
  obtain k v where kv: "kv = (k, v)" by (cases kv)
  show ?case
  proof (cases "bound b v")
    case False
    from resolve_not_bound [OF this] kv show ?thesis by auto
  next
    case True
    with Cons.prems kv have "\<not> list_all (bound b) (map snd kvs)" by simp
    from Cons.IH [OF this] resolve_bound [OF True] kv show ?thesis by auto
  qed
qed

lemma new_args_of_no_Arg: "\<forall>v \<in> set vs. \<not> is_Arg v \<Longrightarrow> new_args_of b vs = Inr vs"
  by (induction vs) (auto simp: resolve_no_Arg)

lemma new_kwargs_of_no_Arg: "\<forall>v \<in> snd ` set kvs. \<not> is_Arg v \<Longrightarrow> new_kwargs_of b kvs = Inr kvs"
  by (induction kvs) (auto simp: resolve_no_Arg)

lemma new_args_of_nth:
  "new_args_of b vs = Inr ws \<Longrightarrow> n < length vs \<Longrightarrow> vs ! n = Arg i \<Longrightarrow> b i = Some (ws ! n)"
proof (induction vs arbitrary: ws n)
  case Nil
  then show ?case by simp
next
  case (Cons v vs)
  then show ?case
    by (cases n) (auto simp: get_value_def split: sum.splits option.splits)
qed

lemma new_args_of_length: "new_args_of b vs = Inr ws \<Longrightarrow> length ws = length vs"
  by (induction vs arbitrary: ws) (auto split: sum.splits)

lemma new_kwargs_of_keys: "new_kwargs_of b kvs = Inr kws \<Longrightarrow> map fst kws = map fst kvs"
  by (induction kvs arbitrary: kws) (auto split: sum.splits)

lemma new_kwargs_of_nth:
  "new_kwargs_of b kvs = Inr kws \<Longrightarrow> n < length kvs \<Longrightarrow> snd (kvs ! n) = Arg i \<Longrightarrow>
     b i = Some (snd (kws ! n))"
proof (induction kvs arbitrary: kws n)
  case Nil
  then show ?case by simp
next
  case (Cons kv kvs)
  then show ?case
    by (cases n; cases kv) (auto simp: get_value_def split: sum.splits option.splits)
qed

lemma new_args_of_error: "new_args_of b vs = Inl e \<Longrightarrow> \<exists>i. e = KeyError i"
  using new_args_of_bound [of b vs] new_args_of_unbound [of b vs] by (cases "list_all (bound b) vs") auto

lemma new_kwargs_of_error: "new_kwargs_of b kvs = Inl e \<Longrightarrow> \<exists>i. e = KeyError i"
  using new_kwargs_of_bound [of b kvs] new_kwargs_of_unbound [of b kvs]
  by (cases "list_all (bound b) (map snd kvs)") auto

lemma call_NewF_bound:
  assumes "list_all (bound (all_args_of args kwargs)) (orig_args @ map snd orig_kwargs)"
  shows "call I (NewF f orig_args orig_kwargs) args kwargs s =
           call I f (map (resolved (all_args_of args kwargs)) orig_args)
             (map (\<lambda>(k, v). (k, resolved (all_args_of args kwargs) v)) orig_kwargs) s"
  using assms by (simp add: new_args_of_bound new_kwargs_of_bound Let_def)

lemma call_NewF_unbound:
  assumes "\<not> list_all (bound (all_args_of args kwargs)) (orig_args @ map snd orig_kwargs)"
  shows "\<exists>i. Arg i \<in> set orig_args \<union> snd ` set orig_kwargs \<and> all_args_of args kwargs i = None
           \<and> call I (NewF f orig_args orig_kwargs) args kwargs s = (Inl (KeyError i), s)
           \<and> call J (NewF f orig_args orig_kwargs) args kwargs t = (Inl (KeyError i), t)"
proof (cases "list_all (bound (all_args_of args kwargs)) orig_args")
  case False
  from new_args_of_unbound [OF this] show ?thesis by (auto simp: Let_def)
next
  case True
  with assms have "\<not> list_all (bound (all_args_of args kwargs)) (map snd orig_kwargs)" by simp
  from new_kwargs_of_unbound [OF this] new_args_of_bound [OF True] show ?thesis
    by (auto simp: Let_def)
qed

lemma counted_call_cases:
  "call (counted I) c args kwargs (s, n) = (r, (s', m)) \<Longrightarrow>
     (m = n \<and> s' = s \<and> ((\<exists>h. r = Inr (VFun (autopartial h))) \<or> (\<exists>i. r = Inl (KeyError i))))
   \<or> (m = Suc n \<and> (\<exists>a k. I (target_of c) a k s = (r, s')))"
proof (induction c arbitrary: args kwargs rule: target_of.induct)
  case (1 p)
  then show ?case by (auto simp: counted_def split: prod.splits)
next
  case (2 f)
  then show ?case by (auto split: if_splits)
next
  case (3 f oa ok)
  show ?case
  proof (cases "new_args_of (all_args_of args kwargs) oa")
    case (Inl e)
    with "3.prems" new_args_of_error [OF Inl] show ?thesis by auto
  next
    case na: (Inr na)
    show ?thesis
    proof (cases "new_kwargs_of (all_args_of args kwargs) ok")
      case (Inl e)
      with "3.prems" na new_kwargs_of_error [OF Inl] show ?thesis by auto
    next
      case (Inr nk)
      with "3.prems" na have "call (counted I) f na nk (s, n) = (r, (s', m))" by simp
      from "3.IH" [OF this] show ?thesis by simp
    qed
  qed
qed

lemma resolve_cong: "(\<And>i. v = Arg i \<Longrightarrow> b' i = b i) \<Longrightarrow> resolve b' v = resolve b v"
  by (cases v) (auto simp: get_value_def)

lemma new_args_of_cong:
  "(\<And>i. Arg i \<in> set vs \<Longrightarrow> b' i = b i) \<Longrightarrow> new_args_of b' vs = new_args_of b vs"
proof (induction vs)
  case Nil
  then show ?case by simp
next
  case (Cons v vs)
  have "resolve b' v = resolve b v" by (rule resolve_cong) (simp add: Cons.prems)
  moreover have "new_args_of b' vs = new_args_of b vs" by (rule Cons.IH) (simp add: Cons.prems)
  ultimately show ?case by (simp split: sum.splits)
qed

lemma new_kwargs_of_cong:
  "(\<And>i. Arg i \<in> snd ` set kvs \<Longrightarrow> b' i = b i) \<Longrightarrow> new_kwargs_of b' kvs = new_kwargs_of b kvs"
proof (induction kvs)
  case Nil
  then show ?case by simp
next
  case (Cons kv kvs)
  obtain k v where kv: "kv = (k, v)" by (cases kv)
  have "resolve b' v = resolve b v" by (rule resolve_cong) (simp add: Cons.prems kv)
  moreover have "new_kwargs_of b' kvs = new_kwargs_of b kvs" by (rule Cons.IH) (simp add: Cons.prems)
  ultimately show ?case by (simp add: kv split: sum.splits)
qed

section \<open>Facts about the store\<close>

lemma map_of_setitem: "map_of (setitem d k v) = (map_of d)(k \<mapsto> v)"
  by (induction d) (auto simp: fun_eq_iff)

lemma map_of_dict_update: "map_of (dict_update d items) = map_of d ++ map_of (rev items)"
proof (induction items arbitrary: d)
  case Nil
  then show ?case by simp
next
  case (Cons kv items)
  obtain k v where kv: "kv = (k, v)" by (cases kv)
  show ?case unfolding kv
    by (simp add: Cons.IH map_of_setitem fun_eq_iff map_add_def split: option.splits)
qed

lemma distinct_enum_items: "distinct (map fst (enum_items xs))"
proof -
  have "map fst (enum_items xs) = map (\<lambda>p. Idx (int (fst p))) (enumerate 0 xs)"
    by (simp add: enum_items_def case_prod_unfold)
  also have "\<dots> = map (\<lambda>i. Idx (int i)) (map fst (enumerate 0 xs))"
    by (simp only: map_map comp_def)
  finally have "map fst (enum_items xs) = map (\<lambda>i. Idx (int i)) [0..<length xs]"
    by simp
  moreover have "inj_on (\<lambda>i. Idx (int i)) A" for A by (simp add: inj_on_def)
  ultimately show ?thesis by (simp add: distinct_map)
qed

lemma map_of_rev_enum: "map_of (rev (enum_items xs)) = map_of (enum_items xs)"
proof -
  have "distinct (map fst (rev (enum_items xs)))"
    using distinct_enum_items [of xs] by (simp add: rev_map [symmetric])
  then show ?thesis
    using distinct_enum_items [of xs] by (simp add: map_of_inject_set)
qed

lemma all_args_heap: "map_of (dict_update (kw_items kwargs) (enum_items args)) = all_args_of args kwargs"
  by (simp add: map_of_dict_update map_of_rev_enum all_args_of_def)
    (simp add: kw_items_def enum_items_def)

lemma new_items_of_kw:
  "new_items_of b (kw_items ok) = (case new_kwargs_of b ok of Inl e \<Rightarrow> Inl e | Inr nk \<Rightarrow> Inr (kw_items nk))"
  by (induction ok) (auto simp: kw_items_def split: sum.splits)

lemma load_append: "a < length h \<Longrightarrow> load (h @ xs) a = load h a"
  by (simp add: load_def nth_append)

lemma load_new: "load (h @ [ob]) (length h) = Some ob"
  by (simp add: load_def)

lemma load_Some_less: "load h a = Some ob \<Longrightarrow> a < length h"
  by (simp add: load_def split: if_splits)

lemma new_f_body_frame:
  assumes "new_f_body h oa ok xs ks = (r, h')" and "a < length h"
  shows "load h' a = load h a"
  using assms
  by (auto simp: new_f_body_def alloc_def Let_def load_def nth_append
      split: option.splits obj.splits sum.splits prod.splits if_splits)

lemma new_f_body_eq:
  assumes "load h oa = Some (Tuple orig_args)" and "load h ok = Some (Dict (kw_items orig_kwargs))"
    and "load h xs = Some (Tuple args)" and "load h ks = Some (Dict (kw_items kwargs))"
  shows "new_f_body h oa ok xs ks =
     (let h2 = h @ [Dict (dict_update (kw_items kwargs) (enum_items args))];
          b = all_args_of args kwargs in
      case new_args_of b orig_args of
        Inl e \<Rightarrow> (Inl e, h2)
      | Inr new_args \<Rightarrow>
          (case new_kwargs_of b orig_kwargs of
             Inl e \<Rightarrow> (Inl e, h2 @ [PyList new_args])
           | Inr new_kwargs \<Rightarrow>
               (Inr (Suc (length h), Suc (Suc (length h))),
                h2 @ [PyList new_args, Dict (kw_items new_kwargs)])))"
proof -
  let ?d = "Dict (dict_update (kw_items kwargs) (enum_items args))"
  note lt = assms [THEN load_Some_less]
  have h1: "load (h @ [Dict (kw_items kwargs)]) xs = Some (Tuple args)"
    "load (h @ [Dict (kw_items kwargs)]) (length h) = Some (Dict (kw_items kwargs))"
    using assms lt by (simp_all add: load_append load_new)
  have upd: "(h @ [Dict (kw_items kwargs)])[length h := ?d] = h @ [?d]"
    by simp
  have h2: "load (h @ [?d]) oa = Some (Tuple orig_args)" "load (h @ [?d]) (length h) = Some ?d"
    using assms lt by (simp_all add: load_append load_new)
  have h3: "load ((h @ [?d]) @ [ob]) ok = Some (Dict (kw_items orig_kwargs))"
    "load ((h @ [?d]) @ [ob]) (length h) = Some ?d" for ob
    using assms lt by (simp_all add: load_def nth_append)
  show ?thesis
    unfolding new_f_body_def alloc_def
    by (simp add: assms h1 upd h2 h3 all_args_heap new_items_of_kw Let_def
        del: append_assoc append.simps split: sum.splits)
qed

lemma keyword_items_kw_items: "those (map keyword_item (kw_items kvs)) = Some kvs"
  by (induction kvs) (auto simp: kw_items_def)

lemma new_f_heap_call:
  assumes "load h oa = Some (Tuple orig_args)" and "load h ok = Some (Dict (kw_items orig_kwargs))"
    and "load h xs = Some (Tuple args)" and "load h ks = Some (Dict (kw_items kwargs))"
  shows "fst (new_f_heap I f h oa ok xs ks s) = call I (NewF f orig_args orig_kwargs) args kwargs s"
  unfolding new_f_heap_def new_f_body_eq [OF assms]
  by (simp add: Let_def load_def nth_append keyword_items_kw_items split: sum.splits)

section \<open>The properties\<close>

text \<open>
  Claim C1, as amended. When a deferred callable \<open>autopartial (NewF f orig_args orig_kwargs)\<close>
  is invoked with \<open>new_args\<close> and \<open>new_kwargs\<close> none of which is a placeholder, the
  binding dictionary holds every element of \<open>new_args\<close> under its position and the
  entries of \<open>new_kwargs\<close> under their keys; if every captured placeholder is bound there,
  the result is the target's result on the captured arguments with each placeholder
  replaced by its lookup (the keyword keys unchanged), and otherwise the lookup of an
  unbound captured placeholder raises KeyError.
\<close>

theorem deferred_call_resolves:
  assumes "\<forall>v \<in> set new_args \<union> snd ` set new_kwargs. \<not> is_Arg v"
  shows "(\<forall>n < length new_args. all_args_of new_args new_kwargs (Idx (int n)) = Some (new_args ! n))
       \<and> (\<forall>k. all_args_of new_args new_kwargs (Kw k) = map_of new_kwargs k)
       \<and> (if list_all (bound (all_args_of new_args new_kwargs)) (orig_args @ map snd orig_kwargs)
          then call I (autopartial (NewF f orig_args orig_kwargs)) new_args new_kwargs s =
                 call I f (map (resolved (all_args_of new_args new_kwargs)) orig_args)
                   (map (\<lambda>(k, v). (k, resolved (all_args_of new_args new_kwargs) v)) orig_kwargs) s
          else \<exists>i. Arg i \<in> set orig_args \<union> snd ` set orig_kwargs
                 \<and> all_args_of new_args new_kwargs i = None
                 \<and> call I (autopartial (NewF f orig_args orig_kwargs)) new_args new_kwargs s =
                     (Inl (KeyError i), s))"
proof -
  have "call I (autopartial (NewF f orig_args orig_kwargs)) new_args new_kwargs s =
        call I (NewF f orig_args orig_kwargs) new_args new_kwargs s"
    using assms by (simp add: autopartial_def has_placeholder_iff)
  note w = this
  show ?thesis
  proof (cases "list_all (bound (all_args_of new_args new_kwargs)) (orig_args @ map snd orig_kwargs)")
    case True
    from call_NewF_bound [OF this] True show ?thesis
      by (simp add: w all_args_of_Idx all_args_of_Kw del: call.simps list_all_append)
  next
    case False
    from call_NewF_unbound [OF this, where I = I and s = s and J = I and t = s and f = f]
    obtain i where "Arg i \<in> set orig_args \<union> snd ` set orig_kwargs"
      "all_args_of new_args new_kwargs i = None"
      "call I (NewF f orig_args orig_kwargs) new_args new_kwargs s = (Inl (KeyError i), s)"
      by blast
    with False show ?thesis
      by (simp add: w all_args_of_Idx all_args_of_Kw del: call.simps list_all_append)
  qed
qed

theorem deferred_call_resolves_witness:
  "\<not> has_placeholder [VInt 145, VInt 543 :: example val] [(''s'', VInt 444)]
   \<and> call examples (autopartial (NewF (Prim Test_f)
         [Arg (Kw ''s''), Arg (Idx 1), VInt 3] [(''a'', Arg (Idx 0)), (''b'', VInt 4)]))
       [VInt 145, VInt 543] [(''s'', VInt 444)] []
     = (Inr (VTuple [VTuple [VInt 444, VInt 543, VInt 3], VDict [(''a'', VInt 145), (''b'', VInt 4)]]),
        [([VInt 444, VInt 543, VInt 3], [(''a'', VInt 145), (''b'', VInt 4)])])"
proof -
  let ?args = "[VInt 145, VInt 543] :: example val list"
  let ?kwargs = "[(''s'', VInt 444)] :: example kwargs"
  let ?oa = "[Arg (Kw ''s''), Arg (Idx 1), VInt 3] :: example val list"
  let ?ok = "[(''a'', Arg (Idx 0)), (''b'', VInt 4)] :: example kwargs"
  have h: "\<forall>v \<in> set ?args \<union> snd ` set ?kwargs. \<not> is_Arg v" by simp
  have b: "list_all (bound (all_args_of ?args ?kwargs)) (?oa @ map snd ?ok)"
    by (simp add: all_args_of_Idx all_args_of_Kw)
  from deferred_call_resolves [OF h, of ?oa ?ok examples "Prim Test_f" "[]"]
  have "call examples (autopartial (NewF (Prim Test_f) ?oa ?ok)) ?args ?kwargs [] =
          call examples (Prim Test_f) (map (resolved (all_args_of ?args ?kwargs)) ?oa)
            (map (\<lambda>(k, v). (k, resolved (all_args_of ?args ?kwargs) v)) ?ok) []"
    using b by (simp only: if_True)
  then show ?thesis
    by (simp add: all_args_of_Idx all_args_of_Kw has_placeholder_def)
qed

text \<open>
  The claim as written, for every \<open>new_args\<close>, fails when \<open>new_args\<close> holds a
  placeholder: for \<^verbatim>\<open>h = f(_0_)\<close> the call \<^verbatim>\<open>h(_1_)\<close> returns a further deferred callable
  and prints nothing, whereas the target on the resolved arguments returns
  \<^verbatim>\<open>((_1_,), {})\<close> and prints.
\<close>

theorem deferred_call_resolves_counterexample:
  "list_all (bound (all_args_of [Arg (Idx 1) :: example val] [])) ([Arg (Idx 0)] @ map snd [])
   \<and> call examples (autopartial (NewF (Prim Test_f) [Arg (Idx 0)] [])) [Arg (Idx 1)] [] []
       = (Inr (VFun (autopartial (NewF (NewF (Prim Test_f) [Arg (Idx 0)] []) [Arg (Idx 1)] []))), [])
   \<and> call examples (Prim Test_f) (map (resolved (all_args_of [Arg (Idx 1)] [])) [Arg (Idx 0)]) [] []
       = (Inr (VTuple [VTuple [Arg (Idx 1)], VDict []]), [([Arg (Idx 1)], [])])
   \<and> call examples (autopartial (NewF (Prim Test_f) [Arg (Idx 0)] [])) [Arg (Idx 1)] [] []
       \<noteq> call examples (Prim Test_f) (map (resolved (all_args_of [Arg (Idx 1)] [])) [Arg (Idx 0)]) [] []"
proof -
  have 1: "list_all (bound (all_args_of [Arg (Idx 1) :: example val] [])) ([Arg (Idx 0)] @ map snd [])"
    by (simp add: all_args_of_Idx)
  have 2: "call examples (autopartial (NewF (Prim Test_f) [Arg (Idx 0)] [])) [Arg (Idx 1)] [] []
       = (Inr (VFun (autopartial (NewF (NewF (Prim Test_f) [Arg (Idx 0)] []) [Arg (Idx 1)] []))), [])"
    by (simp add: autopartial_def has_placeholder_def)
  have 3: "call examples (Prim Test_f) (map (resolved (all_args_of [Arg (Idx 1)] [])) [Arg (Idx 0)]) [] []
       = (Inr (VTuple [VTuple [Arg (Idx 1)], VDict []]), [([Arg (Idx 1)], [])])"
    by (simp add: all_args_of_Idx)
  show ?thesis unfolding 2 3 using 1 by simp
qed

text \<open>
  Claim C2. For every target and all arguments none of which is a placeholder, the call
  of the wrapped function is the call of the target on the same arguments: the same
  value or error and the same effect.
\<close>

theorem no_placeholder_pass_through:
  assumes "\<forall>v \<in> set args \<union> snd ` set kwargs. \<not> is_Arg v"
  shows "call I (autopartial f) args kwargs s = call I f args kwargs s
       \<and> call I (autopartial (Prim p)) args kwargs s = I p args kwargs s"
  using assms by (simp add: autopartial_def has_placeholder_iff)

theorem no_placeholder_pass_through_witness:
  "\<not> has_placeholder [VInt 1, VInt 2 :: example val] [(''a'', VInt 3), (''b'', VInt 4)]
   \<and> call examples (autopartial (Prim Test_f)) [VInt 1, VInt 2] [(''a'', VInt 3), (''b'', VInt 4)] []
       = (Inr (VTuple [VTuple [VInt 1, VInt 2], VDict [(''a'', VInt 3), (''b'', VInt 4)]]),
          [([VInt 1, VInt 2], [(''a'', VInt 3), (''b'', VInt 4)])])"
  using no_placeholder_pass_through
    [of "[VInt 1, VInt 2]" "[(''a'', VInt 3), (''b'', VInt 4)]" examples "Prim Test_f" "[]" Test_f]
  by (simp add: has_placeholder_def)

text \<open>
  Claim C3. A call of a wrapped function with a placeholder among its positional
  arguments or keyword values returns a new callable, wrapped in turn, and does not
  invoke the target (the state is unchanged and no call is counted); calling that
  callable with placeholders again returns a further wrapped callable, again without
  invoking the target.
\<close>

theorem placeholder_defers:
  assumes "\<exists>v \<in> set args \<union> snd ` set kwargs. is_Arg v"
    and "\<exists>v \<in> set args' \<union> snd ` set kwargs'. is_Arg v"
  shows "call I (autopartial f) args kwargs s = (Inr (VFun (autopartial (NewF f args kwargs))), s)
       \<and> call I (autopartial (NewF f args kwargs)) args' kwargs' s'
           = (Inr (VFun (autopartial (NewF (NewF f args kwargs) args' kwargs'))), s')
       \<and> snd (snd (call (counted I) (autopartial f) args kwargs (s, n))) = n
       \<and> snd (snd (call (counted I) (autopartial (NewF f args kwargs)) args' kwargs' (s', n))) = n"
  using assms by (simp add: autopartial_def has_placeholder_iff)

theorem placeholder_defers_witness:
  "(\<exists>v \<in> set [Arg (Idx 0), VInt 2] \<union> snd ` set [(''a'', Arg (Idx 1)), (''b'', VInt 4)]. is_Arg (v :: example val))
   \<and> (\<exists>v \<in> set [Arg (Idx 0), VInt 3] \<union> snd ` set []. is_Arg (v :: example val))
   \<and> call examples (autopartial (Prim Test_f)) [Arg (Idx 0), VInt 2] [(''a'', Arg (Idx 1)), (''b'', VInt 4)] []
       = (Inr (VFun (autopartial (NewF (Prim Test_f) [Arg (Idx 0), VInt 2] [(''a'', Arg (Idx 1)), (''b'', VInt 4)]))), [])
   \<and> call examples (autopartial (NewF (Prim Test_f) [Arg (Idx 0), VInt 2] [(''a'', Arg (Idx 1)), (''b'', VInt 4)]))
        [Arg (Idx 0), VInt 3] [] []
       = (Inr (VFun (autopartial (NewF (NewF (Prim Test_f) [Arg (Idx 0), VInt 2] [(''a'', Arg (Idx 1)), (''b'', VInt 4)])
            [Arg (Idx 0), VInt 3] []))), [])"
  using placeholder_defers
    [of "[Arg (Idx 0), VInt 2]" "[(''a'', Arg (Idx 1)), (''b'', VInt 4)]" "[Arg (Idx 0), VInt 3]" "[]"
        examples "Prim Test_f" "[]" "[]" 0]
  by simp

text \<open>
  Claim C4, as amended. If a deferred callable is invoked with arguments none of which is
  a placeholder, and some captured placeholder has a positional index not covered by the
  call's positional arguments (negative, or at least their number) or a name absent from
  the call's keyword arguments, then the call raises KeyError for an unbound captured
  placeholder; the target is not invoked (the state is unchanged and no call of it is
  counted), so no default value is substituted.
\<close>

theorem missing_binding_raises:
  assumes "\<forall>v \<in> set args \<union> snd ` set kwargs. \<not> is_Arg v"
    and "Arg i \<in> set orig_args \<union> snd ` set orig_kwargs"
    and "case i of Idx n \<Rightarrow> n < 0 \<or> int (length args) \<le> n | Kw k \<Rightarrow> k \<notin> fst ` set kwargs"
  shows "\<exists>j. Arg j \<in> set orig_args \<union> snd ` set orig_kwargs
           \<and> (case j of Idx n \<Rightarrow> n < 0 \<or> int (length args) \<le> n | Kw k \<Rightarrow> k \<notin> fst ` set kwargs)
           \<and> call I (autopartial (NewF f orig_args orig_kwargs)) args kwargs s = (Inl (KeyError j), s)
           \<and> call (counted I) (autopartial (NewF f orig_args orig_kwargs)) args kwargs (s, n)
               = (Inl (KeyError j), (s, n))"
proof -
  let ?b = "all_args_of args kwargs"
  have none_iff: "?b j = None \<longleftrightarrow>
      (case j of Idx n \<Rightarrow> n < 0 \<or> int (length args) \<le> n | Kw k \<Rightarrow> k \<notin> fst ` set kwargs)" for j
    by (cases j) (auto simp: all_args_of_Idx all_args_of_Kw map_of_eq_None_iff)
  from assms(3) have "?b i = None" by (simp add: none_iff)
  then have "\<not> bound ?b (Arg i)" by simp
  moreover from assms(2) have "Arg i \<in> set (orig_args @ map snd orig_kwargs)" by simp
  ultimately have "\<not> list_all (bound ?b) (orig_args @ map snd orig_kwargs)"
    unfolding list_all_iff by blast
  from call_NewF_unbound [OF this, where I = I and s = s and J = "counted I" and t = "(s, n)" and f = f]
  obtain j where j: "Arg j \<in> set orig_args \<union> snd ` set orig_kwargs" "?b j = None"
    and c: "call I (NewF f orig_args orig_kwargs) args kwargs s = (Inl (KeyError j), s)"
      "call (counted I) (NewF f orig_args orig_kwargs) args kwargs (s, n) = (Inl (KeyError j), (s, n))"
    by blast
  have w: "call I (autopartial (NewF f orig_args orig_kwargs)) args kwargs s =
        call I (NewF f orig_args orig_kwargs) args kwargs s"
    "call (counted I) (autopartial (NewF f orig_args orig_kwargs)) args kwargs (s, n) =
        call (counted I) (NewF f orig_args orig_kwargs) args kwargs (s, n)"
    using assms(1) by (simp_all add: autopartial_def has_placeholder_iff)
  from j(2) have "case j of Idx n \<Rightarrow> n < 0 \<or> int (length args) \<le> n | Kw k \<Rightarrow> k \<notin> fst ` set kwargs"
    by (simp add: none_iff)
  with j(1) c show ?thesis
    unfolding w by blast
qed

theorem missing_binding_raises_witness:
  "\<not> has_placeholder ([] :: example val list) [(''z'', VInt 145)]
   \<and> Arg (Kw ''q'') \<in> set [VInt 1, VInt 2] \<union> snd ` set [(''a'', VInt 3), (''b'', Arg (Kw ''q'') :: example val)]
   \<and> ''q'' \<notin> fst ` set [(''z'', VInt 145 :: example val)]
   \<and> call examples (autopartial (NewF (Prim Test_f) [VInt 1, VInt 2] [(''a'', VInt 3), (''b'', Arg (Kw ''q''))]))
        [] [(''z'', VInt 145)] [] = (Inl (KeyError (Kw ''q'')), [])"
  using missing_binding_raises [of "[]" "[(''z'', VInt 145)]" "Kw ''q''" "[VInt 1, VInt 2]"
      "[(''a'', VInt 3), (''b'', Arg (Kw ''q''))]" examples "Prim Test_f" "[]" 0]
  by (simp add: autopartial_def has_placeholder_def all_args_of_Kw get_value_def)

text \<open>
  The claim as written fails when the invoking call itself holds a placeholder: for
  \<^verbatim>\<open>h = f(_kw_('q'))\<close> the call \<^verbatim>\<open>h(_0_)\<close> has no keyword \<^verbatim>\<open>q\<close>, yet it raises
  nothing and returns a further deferred callable.
\<close>

theorem missing_binding_raises_counterexample:
  "Arg (Kw ''q'') \<in> set [Arg (Kw ''q'') :: example val] \<union> snd ` set []
   \<and> ''q'' \<notin> fst ` set ([] :: example kwargs)
   \<and> call examples (autopartial (NewF (Prim Test_f) [Arg (Kw ''q'')] [])) [Arg (Idx 0)] [] []
       = (Inr (VFun (autopartial (NewF (NewF (Prim Test_f) [Arg (Kw ''q'')] []) [Arg (Idx 0)] []))), [])
   \<and> \<not> isl (fst (call examples (autopartial (NewF (Prim Test_f) [Arg (Kw ''q'')] [])) [Arg (Idx 0)] [] []))"
  by (simp add: autopartial_def has_placeholder_def)

text \<open>
  Claim C5. In one invocation of \<^verbatim>\<open>new_f\<close> that resolves its captured arguments, every
  occurrence of a placeholder with index \<open>i\<close>, among the captured positional arguments
  and among the captured keyword values, is replaced by the one value bound to \<open>i\<close>
  in that invocation's binding dictionary, the keyword keys staying as captured, and these
  resolved arguments are what the target is called with. In particular, with the test's
  \<^verbatim>\<open>f\<close>, \<^verbatim>\<open>f(_0_, 2, a=_0_, b=_0_)(145)\<close> returns \<^verbatim>\<open>((145, 2), {'a': 145, 'b': 145})\<close>.
\<close>

theorem placeholder_reuse:
  assumes "new_args_of (all_args_of args kwargs) orig_args = Inr new_args"
    and "new_kwargs_of (all_args_of args kwargs) orig_kwargs = Inr new_kwargs"
  shows "(\<forall>n < length orig_args. \<forall>i. orig_args ! n = Arg i \<longrightarrow>
            all_args_of args kwargs i = Some (new_args ! n))
       \<and> (\<forall>n < length orig_kwargs. \<forall>i. snd (orig_kwargs ! n) = Arg i \<longrightarrow>
            all_args_of args kwargs i = Some (snd (new_kwargs ! n))
            \<and> fst (new_kwargs ! n) = fst (orig_kwargs ! n))
       \<and> call I (NewF f orig_args orig_kwargs) args kwargs s = call I f new_args new_kwargs s
       \<and> call examples (autopartial (Prim Test_f))
            [Arg (Idx 0), VInt 2] [(''a'', Arg (Idx 0)), (''b'', Arg (Idx 0))] out
          = (Inr (VFun (autopartial (NewF (Prim Test_f)
               [Arg (Idx 0), VInt 2] [(''a'', Arg (Idx 0)), (''b'', Arg (Idx 0))]))), out)
       \<and> call examples (autopartial (NewF (Prim Test_f)
               [Arg (Idx 0), VInt 2] [(''a'', Arg (Idx 0)), (''b'', Arg (Idx 0))])) [VInt 145] [] out
          = (Inr (VTuple [VTuple [VInt 145, VInt 2], VDict [(''a'', VInt 145), (''b'', VInt 145)]]),
             out @ [([VInt 145, VInt 2], [(''a'', VInt 145), (''b'', VInt 145)])])"
proof -
  have keys: "map fst new_kwargs = map fst orig_kwargs"
    using assms(2) by (rule new_kwargs_of_keys)
  have "fst (new_kwargs ! n) = fst (orig_kwargs ! n)" if "n < length orig_kwargs" for n
  proof -
    have "length new_kwargs = length orig_kwargs" using keys by (metis length_map)
    with that have "map fst new_kwargs ! n = fst (new_kwargs ! n)"
      "map fst orig_kwargs ! n = fst (orig_kwargs ! n)" by simp_all
    with keys show ?thesis by simp
  qed
  moreover have "call I (NewF f orig_args orig_kwargs) args kwargs s = call I f new_args new_kwargs s"
    using assms by simp
  moreover have "call examples (autopartial (Prim Test_f))
            [Arg (Idx 0), VInt 2] [(''a'', Arg (Idx 0)), (''b'', Arg (Idx 0))] out
          = (Inr (VFun (autopartial (NewF (Prim Test_f)
               [Arg (Idx 0), VInt 2] [(''a'', Arg (Idx 0)), (''b'', Arg (Idx 0))]))), out)"
    by (simp add: autopartial_def has_placeholder_def)
  moreover have "call examples (autopartial (NewF (Prim Test_f)
               [Arg (Idx 0), VInt 2] [(''a'', Arg (Idx 0)), (''b'', Arg (Idx 0))])) [VInt 145] [] out
          = (Inr (VTuple [VTuple [VInt 145, VInt 2], VDict [(''a'', VInt 145), (''b'', VInt 145)]]),
             out @ [([VInt 145, VInt 2], [(''a'', VInt 145), (''b'', VInt 145)])])"
    by (simp add: autopartial_def has_placeholder_def all_args_of_def get_value_def)
  ultimately show ?thesis
    using new_args_of_nth [OF assms(1)] new_kwargs_of_nth [OF assms(2)] by blast
qed

theorem placeholder_reuse_witness:
  "new_args_of (all_args_of [VInt 145 :: example val] []) [Arg (Idx 0), Arg (Idx 0), VInt 2]
     = Inr [VInt 145, VInt 145, VInt 2]
   \<and> new_kwargs_of (all_args_of [VInt 145 :: example val] []) [(''a'', Arg (Idx 0)), (''b'', Arg (Idx 0))]
     = Inr [(''a'', VInt 145), (''b'', VInt 145)]
   \<and> all_args_of [VInt 145 :: example val] [] (Idx 0) = Some ([VInt 145, VInt 145, VInt 2] ! 0)
   \<and> all_args_of [VInt 145 :: example val] [] (Idx 0) = Some ([VInt 145, VInt 145, VInt 2] ! 1)
   \<and> all_args_of [VInt 145 :: example val] [] (Idx 0) = Some (snd ([(''a'', VInt 145), (''b'', VInt 145)] ! 1))"
proof -
  let ?b = "all_args_of [VInt 145 :: example val] []"
  have 1: "new_args_of ?b [Arg (Idx 0), Arg (Idx 0), VInt 2] = Inr [VInt 145, VInt 145, VInt 2]"
    by (simp add: get_value_def all_args_of_Idx)
  have 2: "new_kwargs_of ?b [(''a'', Arg (Idx 0)), (''b'', Arg (Idx 0))]
      = Inr [(''a'', VInt 145), (''b'', VInt 145)]"
    by (simp add: get_value_def all_args_of_Idx)
  note t = placeholder_reuse [OF 1 2, of examples "Prim Test_f" "[]" "[]"]
  from t have a: "\<forall>n < length [Arg (Idx 0), Arg (Idx 0), VInt 2 :: example val].
      \<forall>i. [Arg (Idx 0), Arg (Idx 0), VInt 2 :: example val] ! n = Arg i \<longrightarrow>
        ?b i = Some ([VInt 145, VInt 145, VInt 2] ! n)"
    by (rule conjunct1)
  from a [rule_format, of 0 "Idx 0"] have a0: "?b (Idx 0) = Some ([VInt 145, VInt 145, VInt 2] ! 0)"
    by simp
  from a [rule_format, of 1 "Idx 0"] have a1: "?b (Idx 0) = Some ([VInt 145, VInt 145, VInt 2] ! 1)"
    by simp
  from t have k: "\<forall>n < length [(''a'', Arg (Idx 0)), (''b'', Arg (Idx 0) :: example val)].
      \<forall>i. snd ([(''a'', Arg (Idx 0)), (''b'', Arg (Idx 0) :: example val)] ! n) = Arg i \<longrightarrow>
        ?b i = Some (snd ([(''a'', VInt 145), (''b'', VInt 145)] ! n))
        \<and> fst ([(''a'', VInt 145), (''b'', VInt 145 :: example val)] ! n)
            = fst ([(''a'', Arg (Idx 0)), (''b'', Arg (Idx 0) :: example val)] ! n)"
    by (rule conjunct2 [THEN conjunct1])
  from k [rule_format, of 1 "Idx 0"]
  have k1: "?b (Idx 0) = Some (snd ([(''a'', VInt 145), (''b'', VInt 145)] ! 1))"
    by simp
  from 1 2 a0 a1 k1 show ?thesis by (intro conjI)
qed

text \<open>
  Claim C6. With the docstring's \<^verbatim>\<open>power\<close>: \<^verbatim>\<open>verbose_power = power(_kw_('base'),
  _kw_('exponent'))\<close> and \<^verbatim>\<open>power_again = verbose_power(base=_0_, exponent=_1_)\<close> are
  deferred callables, and \<^verbatim>\<open>power_again(3, 2)\<close> is the target's call on \<^verbatim>\<open>(3, 2)\<close>, for any
  target; for \<^verbatim>\<open>power\<close> it returns 9, as do \<^verbatim>\<open>power(3, 2)\<close> and
  \<^verbatim>\<open>verbose_power(base=3, exponent=2)\<close>.
\<close>

theorem round_trip_rename:
  "call I (autopartial (Prim p)) [Arg (Kw ''base''), Arg (Kw ''exponent'')] [] s
     = (Inr (VFun (autopartial (NewF (Prim p) [Arg (Kw ''base''), Arg (Kw ''exponent'')] []))), s)
   \<and> call I (autopartial (NewF (Prim p) [Arg (Kw ''base''), Arg (Kw ''exponent'')] []))
        [] [(''base'', Arg (Idx 0)), (''exponent'', Arg (Idx 1))] s
     = (Inr (VFun (autopartial (NewF (NewF (Prim p) [Arg (Kw ''base''), Arg (Kw ''exponent'')] [])
          [] [(''base'', Arg (Idx 0)), (''exponent'', Arg (Idx 1))]))), s)
   \<and> call I (autopartial (NewF (NewF (Prim p) [Arg (Kw ''base''), Arg (Kw ''exponent'')] [])
          [] [(''base'', Arg (Idx 0)), (''exponent'', Arg (Idx 1))])) [VInt 3, VInt 2] [] s
     = I p [VInt 3, VInt 2] [] s
   \<and> call examples (autopartial (NewF (NewF (Prim Power) [Arg (Kw ''base''), Arg (Kw ''exponent'')] [])
          [] [(''base'', Arg (Idx 0)), (''exponent'', Arg (Idx 1))])) [VInt 3, VInt 2] [] out
     = (Inr (VInt 9), out)
   \<and> call examples (autopartial (Prim Power)) [VInt 3, VInt 2] [] out = (Inr (VInt 9), out)
   \<and> call examples (autopartial (NewF (Prim Power) [Arg (Kw ''base''), Arg (Kw ''exponent'')] []))
        [] [(''base'', VInt 3), (''exponent'', VInt 2)] out = (Inr (VInt 9), out)"
  by (simp add: autopartial_def has_placeholder_def all_args_of_def get_value_def power_f_def param_def)

text \<open>
  Claim C7. Whenever a call of a callable built by \<^verbatim>\<open>autopartial\<close>, at any depth of
  wrapping and deferral, invokes the target, it invokes it once and the caller gets
  exactly the outcome of that invocation: the same value or error and the same state.
  In particular an error raised by the target reaches the caller as it is.
\<close>

theorem target_outcome_unmodified:
  assumes "call (counted I) c args kwargs (s, n) = (r, (s', m))" and "m \<noteq> n"
  shows "m = Suc n \<and> (\<exists>a k. I (target_of c) a k s = (r, s'))"
  using counted_call_cases [OF assms(1)] assms(2) by auto

theorem target_outcome_unmodified_witness:
  "call (counted examples) (autopartial (NewF (Prim Power) [Arg (Idx 0), VStr ''x''] [])) [VInt 3] [] ([], 0)
     = (Inl TypeError, ([], Suc 0))
   \<and> Suc 0 \<noteq> 0
   \<and> (\<exists>a k. examples (target_of (autopartial (NewF (Prim Power) [Arg (Idx 0), VStr ''x''] []))) a k []
         = (Inl TypeError, []))"
proof -
  have c: "call (counted examples) (autopartial (NewF (Prim Power) [Arg (Idx 0), VStr ''x''] []))
      [VInt 3] [] ([], 0) = (Inl TypeError, ([], Suc 0))"
    by (simp add: autopartial_def has_placeholder_def all_args_of_Idx get_value_def counted_def
        power_f_def param_def)
  have n: "Suc 0 \<noteq> 0" by simp
  from target_outcome_unmodified [OF c n] c n show ?thesis by blast
qed

text \<open>
  Claim C8. On the store: an invocation of \<^verbatim>\<open>new_f\<close>, whatever its outcome, leaves every
  object that existed before it unchanged, in particular the captured tuple
  \<^verbatim>\<open>orig_args\<close> and the captured dictionary \<^verbatim>\<open>orig_kwargs\<close>; its outcome is that of
  the call \<open>call I (NewF f orig_args orig_kwargs) args kwargs s\<close>; and a second
  invocation afterwards, with other arguments, gives what it gives on the store before
  the first one.
\<close>

theorem captured_arguments_not_mutated:
  assumes "load h oa = Some (Tuple orig_args)" and "load h ok = Some (Dict (kw_items orig_kwargs))"
    and "load h xs = Some (Tuple args)" and "load h ks = Some (Dict (kw_items kwargs))"
    and "load h xs' = Some (Tuple args')" and "load h ks' = Some (Dict (kw_items kwargs'))"
    and "new_f_heap I f h oa ok xs ks s = (out, h')"
  shows "(\<forall>a < length h. load h' a = load h a)
       \<and> load h' oa = Some (Tuple orig_args) \<and> load h' ok = Some (Dict (kw_items orig_kwargs))
       \<and> out = call I (NewF f orig_args orig_kwargs) args kwargs s
       \<and> fst (new_f_heap I f h' oa ok xs' ks' s') = call I (NewF f orig_args orig_kwargs) args' kwargs' s'
       \<and> fst (new_f_heap I f h' oa ok xs' ks' s') = fst (new_f_heap I f h oa ok xs' ks' s')"
proof -
  obtain r where body: "new_f_body h oa ok xs ks = (r, h')"
    using assms(7) by (auto simp: new_f_heap_def split: prod.splits sum.splits option.splits)
  have frame: "load h' a = load h a" if "a < length h" for a
    using body that by (rule new_f_body_frame)
  note lt = assms(1-6) [THEN load_Some_less]
  have kept: "load h' oa = Some (Tuple orig_args)" "load h' ok = Some (Dict (kw_items orig_kwargs))"
    "load h' xs' = Some (Tuple args')" "load h' ks' = Some (Dict (kw_items kwargs'))"
    using assms(1,2,5,6) lt frame by simp_all
  have "out = fst (new_f_heap I f h oa ok xs ks s)" using assms(7) by simp
  then have out: "out = call I (NewF f orig_args orig_kwargs) args kwargs s"
    by (simp only: new_f_heap_call [OF assms(1-4)])
  have again: "fst (new_f_heap I f h' oa ok xs' ks' s') =
      call I (NewF f orig_args orig_kwargs) args' kwargs' s'"
    by (rule new_f_heap_call [OF kept])
  have same: "fst (new_f_heap I f h' oa ok xs' ks' s') = fst (new_f_heap I f h oa ok xs' ks' s')"
    by (simp only: again new_f_heap_call [OF assms(1,2,5,6)])
  from frame kept(1,2) out again same show ?thesis by blast
qed

theorem captured_arguments_not_mutated_witness:
  "load [Tuple [Arg (Idx 0), VInt 2], Dict (kw_items [(''a'', Arg (Idx 0))]),
         Tuple [VInt 145], Dict (kw_items []), Tuple [VInt 7 :: example val], Dict (kw_items [])] 0
     = Some (Tuple [Arg (Idx 0), VInt 2])
   \<and> new_f_heap examples (Prim Test_f)
       [Tuple [Arg (Idx 0), VInt 2], Dict (kw_items [(''a'', Arg (Idx 0))]),
        Tuple [VInt 145], Dict (kw_items []), Tuple [VInt 7], Dict (kw_items [])] 0 1 2 3 []
     = ((Inr (VTuple [VTuple [VInt 145, VInt 2], VDict [(''a'', VInt 145)]]),
         [([VInt 145, VInt 2], [(''a'', VInt 145)])]),
        [Tuple [Arg (Idx 0), VInt 2], Dict (kw_items [(''a'', Arg (Idx 0))]),
         Tuple [VInt 145], Dict (kw_items []), Tuple [VInt 7], Dict (kw_items []),
         Dict [(Idx 0, VInt 145)], PyList [VInt 145, VInt 2], Dict [(Kw ''a'', VInt 145)]])
   \<and> load [Tuple [Arg (Idx 0), VInt 2], Dict (kw_items [(''a'', Arg (Idx 0))]),
           Tuple [VInt 145], Dict (kw_items []), Tuple [VInt 7 :: example val], Dict (kw_items []),
           Dict [(Idx 0, VInt 145)], PyList [VInt 145, VInt 2], Dict [(Kw ''a'', VInt 145)]] 0
     = Some (Tuple [Arg (Idx 0), VInt 2])
   \<and> load [Tuple [Arg (Idx 0), VInt 2], Dict (kw_items [(''a'', Arg (Idx 0))]),
           Tuple [VInt 145], Dict (kw_items []), Tuple [VInt 7 :: example val], Dict (kw_items []),
           Dict [(Idx 0, VInt 145)], PyList [VInt 145, VInt 2], Dict [(Kw ''a'', VInt 145)]] 1
     = Some (Dict (kw_items [(''a'', Arg (Idx 0))]))
   \<and> fst (new_f_heap examples (Prim Test_f)
         [Tuple [Arg (Idx 0), VInt 2], Dict (kw_items [(''a'', Arg (Idx 0))]),
          Tuple [VInt 145], Dict (kw_items []), Tuple [VInt 7], Dict (kw_items []),
          Dict [(Idx 0, VInt 145)], PyList [VInt 145, VInt 2], Dict [(Kw ''a'', VInt 145)]] 0 1 4 5 [])
     = (Inr (VTuple [VTuple [VInt 7, VInt 2], VDict [(''a'', VInt 7)]]),
        [([VInt 7, VInt 2], [(''a'', VInt 7)])])"
proof -
  let ?h = "[Tuple [Arg (Idx 0), VInt 2], Dict (kw_items [(''a'', Arg (Idx 0))]),
             Tuple [VInt 145], Dict (kw_items []), Tuple [VInt 7], Dict (kw_items [])] :: example heap"
  let ?h' = "?h @ [Dict [(Idx 0, VInt 145)], PyList [VInt 145, VInt 2], Dict [(Kw ''a'', VInt 145)]]"
  let ?out = "(Inr (VTuple [VTuple [VInt 145, VInt 2], VDict [(''a'', VInt 145)]]),
               [([VInt 145, VInt 2], [(''a'', VInt 145)])]) :: (error + example val) \<times> printed"
  have l: "load ?h 0 = Some (Tuple [Arg (Idx 0), VInt 2])"
    "load ?h 1 = Some (Dict (kw_items [(''a'', Arg (Idx 0))]))"
    "load ?h 2 = Some (Tuple [VInt 145])" "load ?h 3 = Some (Dict (kw_items []))"
    "load ?h 4 = Some (Tuple [VInt 7])" "load ?h 5 = Some (Dict (kw_items []))"
    by (simp_all add: load_def)
  have run: "new_f_heap examples (Prim Test_f) ?h 0 1 2 3 [] = (?out, ?h')"
    by (simp add: new_f_heap_def new_f_body_def alloc_def load_def kw_items_def enum_items_def
        get_value_def Let_def)
  note t = captured_arguments_not_mutated [OF l run, of "[]"]
  from t have k: "load ?h' 0 = Some (Tuple [Arg (Idx 0), VInt 2])"
    "load ?h' 1 = Some (Dict (kw_items [(''a'', Arg (Idx 0))]))"
    by simp_all
  from t have "fst (new_f_heap examples (Prim Test_f) ?h' 0 1 4 5 [])
      = call examples (NewF (Prim Test_f) [Arg (Idx 0), VInt 2] [(''a'', Arg (Idx 0))]) [VInt 7] [] []"
    by simp
  also have "\<dots> = (Inr (VTuple [VTuple [VInt 7, VInt 2], VDict [(''a'', VInt 7)]]),
        [([VInt 7, VInt 2], [(''a'', VInt 7)])])"
    by (simp add: all_args_of_Idx get_value_def)
  finally have again: "fst (new_f_heap examples (Prim Test_f) ?h' 0 1 4 5 [])
      = (Inr (VTuple [VTuple [VInt 7, VInt 2], VDict [(''a'', VInt 7)]]),
         [([VInt 7, VInt 2], [(''a'', VInt 7)])])" .
  from l(1) run k again show ?thesis by simp
qed

text \<open>
  Claim C9. The test of \<^verbatim>\<open>wrapped\<close> looks at the arguments themselves only: when no
  positional argument and no keyword value is a placeholder, though placeholders occur
  inside some of them (in a list, tuple or dictionary), the call does not defer but calls
  the target on these very arguments, placeholders included; nor would the comprehensions
  of \<^verbatim>\<open>new_f\<close> change such arguments.
\<close>

theorem detection_is_shallow:
  assumes "\<forall>v \<in> set args \<union> snd ` set kwargs. \<not> is_Arg v"
    and "\<exists>v \<in> set args \<union> snd ` set kwargs. contains_Arg v"
  shows "\<not> has_placeholder args kwargs
       \<and> call I (autopartial f) args kwargs s = call I f args kwargs s
       \<and> call I (autopartial (Prim p)) args kwargs s = I p args kwargs s
       \<and> new_args_of b args = Inr args \<and> new_kwargs_of b kwargs = Inr kwargs"
  using assms(1)
  by (simp add: autopartial_def has_placeholder_iff new_args_of_no_Arg new_kwargs_of_no_Arg)

theorem detection_is_shallow_witness:
  "\<not> has_placeholder [VList [Arg (Idx 0), VInt 1] :: example val] [(''d'', VDict [(''k'', Arg (Kw ''q''))])]
   \<and> (\<exists>v \<in> set [VList [Arg (Idx 0), VInt 1]] \<union> snd ` set [(''d'', VDict [(''k'', Arg (Kw ''q''))])].
       contains_Arg (v :: example val))
   \<and> call examples (autopartial (Prim Test_f))
        [VList [Arg (Idx 0), VInt 1]] [(''d'', VDict [(''k'', Arg (Kw ''q''))])] []
     = (Inr (VTuple [VTuple [VList [Arg (Idx 0), VInt 1]], VDict [(''d'', VDict [(''k'', Arg (Kw ''q''))])]]),
        [([VList [Arg (Idx 0), VInt 1]], [(''d'', VDict [(''k'', Arg (Kw ''q''))])])])"
  using detection_is_shallow
    [of "[VList [Arg (Idx 0), VInt 1]]" "[(''d'', VDict [(''k'', Arg (Kw ''q''))])]"
        examples "Prim Test_f" "[]" Test_f Map.empty]
  by simp

text \<open>
  Claim C10. Two invocations of a deferred callable, with arguments free of placeholders,
  whose binding dictionaries agree on every index that a captured placeholder looks up
  give the same outcome: what is supplied beyond that is ignored. If every captured
  placeholder is bound, the target is called with as many positional arguments as were
  captured and with the captured keyword keys; otherwise KeyError is raised for a
  captured placeholder that is unbound.
\<close>

theorem unused_arguments_ignored:
  assumes "\<forall>v \<in> set args \<union> snd ` set kwargs. \<not> is_Arg v"
    and "\<forall>v \<in> set args' \<union> snd ` set kwargs'. \<not> is_Arg v"
    and "\<forall>i. Arg i \<in> set orig_args \<union> snd ` set orig_kwargs \<longrightarrow>
           all_args_of args' kwargs' i = all_args_of args kwargs i"
  shows "call I (autopartial (NewF f orig_args orig_kwargs)) args' kwargs' s
           = call I (autopartial (NewF f orig_args orig_kwargs)) args kwargs s
       \<and> (if list_all (bound (all_args_of args' kwargs')) (orig_args @ map snd orig_kwargs)
          then \<exists>new_args new_kwargs.
                 length new_args = length orig_args \<and> map fst new_kwargs = map fst orig_kwargs
                 \<and> call I (autopartial (NewF f orig_args orig_kwargs)) args' kwargs' s
                     = call I f new_args new_kwargs s
          else \<exists>i. Arg i \<in> set orig_args \<union> snd ` set orig_kwargs
                 \<and> all_args_of args' kwargs' i = None
                 \<and> call I (autopartial (NewF f orig_args orig_kwargs)) args' kwargs' s
                     = (Inl (KeyError i), s))"
proof -
  let ?h = "NewF f orig_args orig_kwargs"
  let ?b = "all_args_of args kwargs" and ?b' = "all_args_of args' kwargs'"
  have w: "call I (autopartial ?h) args kwargs s = call I ?h args kwargs s"
    using assms(1) by (simp add: autopartial_def has_placeholder_iff)
  have w': "call I (autopartial ?h) args' kwargs' s = call I ?h args' kwargs' s"
    using assms(2) by (simp add: autopartial_def has_placeholder_iff)
  have "new_args_of ?b' orig_args = new_args_of ?b orig_args"
    by (rule new_args_of_cong) (simp add: assms(3))
  moreover have "new_kwargs_of ?b' orig_kwargs = new_kwargs_of ?b orig_kwargs"
    by (rule new_kwargs_of_cong) (simp add: assms(3))
  ultimately have same: "call I ?h args' kwargs' s = call I ?h args kwargs s"
    by (simp add: Let_def split: sum.splits)
  show ?thesis
  proof (cases "list_all (bound ?b') (orig_args @ map snd orig_kwargs)")
    case True
    have "length (map (resolved ?b') orig_args) = length orig_args" by simp
    moreover have "map fst (map (\<lambda>(k, v). (k, resolved ?b' v)) orig_kwargs) = map fst orig_kwargs"
      by (induction orig_kwargs) auto
    ultimately have "\<exists>new_args new_kwargs.
        length new_args = length orig_args \<and> map fst new_kwargs = map fst orig_kwargs
        \<and> call I ?h args' kwargs' s = call I f new_args new_kwargs s"
      using call_NewF_bound [OF True, of I f s] by blast
    with True show ?thesis by (simp only: w w' same if_True simp_thms)
  next
    case False
    from call_NewF_unbound [OF this, where I = I and s = s and J = I and t = s and f = f]
    have "\<exists>i. Arg i \<in> set orig_args \<union> snd ` set orig_kwargs \<and> ?b' i = None
        \<and> call I ?h args' kwargs' s = (Inl (KeyError i), s)"
      by blast
    with False show ?thesis by (simp only: w w' same if_False simp_thms)
  qed
qed

theorem unused_arguments_ignored_witness:
  "\<not> has_placeholder [VInt 145 :: example val] [(''s'', VInt 444)]
   \<and> \<not> has_placeholder [VInt 145, VInt 543, VInt 9 :: example val] [(''s'', VInt 444), (''t'', VInt 1)]
   \<and> call examples (autopartial (NewF (Prim Test_f) [Arg (Idx 0), VInt 2] [(''a'', Arg (Kw ''s''))]))
        [VInt 145, VInt 543, VInt 9] [(''s'', VInt 444), (''t'', VInt 1)] []
     = call examples (autopartial (NewF (Prim Test_f) [Arg (Idx 0), VInt 2] [(''a'', Arg (Kw ''s''))]))
        [VInt 145] [(''s'', VInt 444)] []
   \<and> call examples (autopartial (NewF (Prim Test_f) [Arg (Idx 0), VInt 2] [(''a'', Arg (Kw ''s''))]))
        [VInt 145, VInt 543, VInt 9] [(''s'', VInt 444), (''t'', VInt 1)] []
     = (Inr (VTuple [VTuple [VInt 145, VInt 2], VDict [(''a'', VInt 444)]]),
        [([VInt 145, VInt 2], [(''a'', VInt 444)])])"
proof -
  let ?args = "[VInt 145] :: example val list"
  let ?kwargs = "[(''s'', VInt 444)] :: example kwargs"
  let ?args' = "[VInt 145, VInt 543, VInt 9] :: example val list"
  let ?kwargs' = "[(''s'', VInt 444), (''t'', VInt 1)] :: example kwargs"
  let ?oa = "[Arg (Idx 0), VInt 2] :: example val list"
  let ?ok = "[(''a'', Arg (Kw ''s''))] :: example kwargs"
  have 1: "\<forall>v \<in> set ?args \<union> snd ` set ?kwargs. \<not> is_Arg v" by simp
  have 2: "\<forall>v \<in> set ?args' \<union> snd ` set ?kwargs'. \<not> is_Arg v" by simp
  have 3: "\<forall>i. Arg i \<in> set ?oa \<union> snd ` set ?ok \<longrightarrow>
      all_args_of ?args' ?kwargs' i = all_args_of ?args ?kwargs i"
    by (auto simp: all_args_of_Idx all_args_of_Kw)
  from unused_arguments_ignored [OF 1 2 3, of examples "Prim Test_f" "[]"]
  have "call examples (autopartial (NewF (Prim Test_f) ?oa ?ok)) ?args' ?kwargs' []
      = call examples (autopartial (NewF (Prim Test_f) ?oa ?ok)) ?args ?kwargs []"
    by (rule conjunct1)
  moreover have "call examples (autopartial (NewF (Prim Test_f) ?oa ?ok)) ?args ?kwargs []
      = (Inr (VTuple [VTuple [VInt 145, VInt 2], VDict [(''a'', VInt 444)]]),
         [([VInt 145, VInt 2], [(''a'', VInt 444)])])"
    by (simp add: autopartial_def has_placeholder_def all_args_of_Idx all_args_of_Kw get_value_def)
  ultimately show ?thesis by (simp add: has_placeholder_def)
qed

end
